theory Spec2Isabelle
  imports Main
begin

section \<open>Python strings\<close>

text \<open>
  A Python \<open>str\<close> is modelled as a \<open>string\<close> whose characters are the code points
  below 256. \<open>isspace\<close> is \<open>str.isspace\<close> on that range; \<open>str.strip()\<close> and the class
  \<open>\s\<close> of \<open>re\<close> both use it. \<open>lower_char\<close> is \<open>str.lower\<close> on that range.
\<close>

definition isspace :: "char \<Rightarrow> bool" where
  "isspace c = ((of_char c :: nat) \<in> {9, 10, 11, 12, 13, 28, 29, 30, 31, 32, 133, 160})"

definition str_strip :: "string \<Rightarrow> string" where
  "str_strip s = rev (dropWhile isspace (rev (dropWhile isspace s)))"

definition lower_char :: "char \<Rightarrow> char" where
  "lower_char c =
     (let n = (of_char c :: nat)
      in if (65 \<le> n \<and> n \<le> 90) \<or> (192 \<le> n \<and> n \<le> 222 \<and> n \<noteq> 215)
         then char_of (n + 32) else c)"

definition str_lower :: "string \<Rightarrow> string" where
  "str_lower s = map lower_char s"

text \<open>\<open>s.split(sep, 1)\<close> and \<open>s.rsplit(sep, 1)\<close> for a one-character separator.\<close>

definition split1 :: "char \<Rightarrow> string \<Rightarrow> string list" where
  "split1 sep s =
     (if sep \<in> set s
      then [takeWhile (\<lambda>c. c \<noteq> sep) s, tl (dropWhile (\<lambda>c. c \<noteq> sep) s)]
      else [s])"

definition rsplit1 :: "char \<Rightarrow> string \<Rightarrow> string list" where
  "rsplit1 sep s =
     (if sep \<in> set s
      then [rev (tl (dropWhile (\<lambda>c. c \<noteq> sep) (rev s))), rev (takeWhile (\<lambda>c. c \<noteq> sep) (rev s))]
      else [s])"

datatype error =
    ValueError string
  | IndexError
  | AttributeError
  | TypeError
  | FileNotFoundError
  | LookupFailure

definition py_index :: "'a list \<Rightarrow> nat \<Rightarrow> error + 'a" where
  "py_index xs i = (if i < length xs then Inr (xs ! i) else Inl IndexError)"

section \<open>Extension check\<close>

definition VALID_EXTENSIONS :: "string set" where
  "VALID_EXTENSIONS = {''.csv'', ''.txt''}"

text \<open>\<open>rsplit\<close> never returns an empty list, so \<open>[-1]\<close> is its last element.\<close>

definition is_valid_extension :: "string \<Rightarrow> bool" where
  "is_valid_extension path =
     (let ext = last (rsplit1 CHR ''.'' (str_lower path))
      in (''.'' @ ext) \<in> VALID_EXTENSIONS)"

section \<open>Syntax validator\<close>

text \<open>
  The pattern \<open>^[^@\s]+@[^@\s]+\.[^@\s]+$\<close> as a sequence of items, and \<open>re.match\<close> on
  such a sequence: a backtracking match from position 0. Without \<open>re.MULTILINE\<close>,
  \<open>^\<close> holds at position 0 only and \<open>$\<close> holds at the end of the string and just
  before a newline that ends the string.
\<close>

datatype item = AtStart | AtEnd | Ch char | Plus1 "char \<Rightarrow> bool"

fun re_match :: "item list \<Rightarrow> nat \<Rightarrow> string \<Rightarrow> bool" where
  "re_match [] pos s = True"
| "re_match (AtStart # p) pos s = (pos = 0 \<and> re_match p pos s)"
| "re_match (AtEnd # p) pos s = ((s = [] \<or> s = [CHR 0x0A]) \<and> re_match p pos s)"
| "re_match (Ch c # p) pos [] = False"
| "re_match (Ch c # p) pos (x # xs) = (x = c \<and> re_match p (Suc pos) xs)"
| "re_match (Plus1 P # p) pos [] = False"
| "re_match (Plus1 P # p) pos (x # xs) =
     (P x \<and> (re_match (Plus1 P # p) (Suc pos) xs \<or> re_match p (Suc pos) xs))"

definition not_at_space :: "char \<Rightarrow> bool" where
  "not_at_space c = (c \<noteq> CHR ''@'' \<and> \<not> isspace c)"

definition email_re :: "item list" where
  "email_re =
     [AtStart, Plus1 not_at_space, Ch CHR ''@'', Plus1 not_at_space, Ch CHR ''.'',
      Plus1 not_at_space, AtEnd]"

definition is_valid_email :: "string \<Rightarrow> bool" where
  "is_valid_email email0 =
     (let email = str_strip email0
      in if email = [] then False else re_match email_re 0 email)"

definition get_domain :: "string \<Rightarrow> error + string" where
  "get_domain email =
     (case py_index (split1 CHR ''@'' (str_strip email)) 1 of
        Inl e \<Rightarrow> Inl e
      | Inr d \<Rightarrow> Inr (str_lower d))"


section \<open>The pattern in the words of the specification\<close>

text \<open>
  One or more characters that are neither \<open>@\<close> nor whitespace, then \<open>@\<close>, then one
  or more such characters, then a dot, then one or more such characters, making up the
  whole string.
\<close>

definition whole_pattern :: "string \<Rightarrow> bool" where
  "whole_pattern s =
     (\<exists>l d t. s = l @ ''@'' @ d @ ''.'' @ t \<and> l \<noteq> [] \<and> d \<noteq> [] \<and> t \<noteq> [] \<and>
        list_all not_at_space l \<and> list_all not_at_space d \<and> list_all not_at_space t)"

section \<open>Properties of the string operations\<close>

lemma isspace_newline: "isspace (CHR 0x0A)" by (simp add: isspace_def)
lemma not_space_at: "\<not> isspace CHR ''@''" by (simp add: isspace_def)
lemma not_space_dot: "\<not> isspace CHR ''.''" by (simp add: isspace_def)

lemma re_match_Plus1:
  "re_match (Plus1 P # p) pos s \<longleftrightarrow>
     (\<exists>u v. s = u @ v \<and> u \<noteq> [] \<and> list_all P u \<and> re_match p (pos + length u) v)"
proof (induction s arbitrary: pos)
  case Nil
  show ?case by simp
next
  case (Cons x xs)
  show ?case (is "?L \<longleftrightarrow> ?R")
  proof
    assume L: ?L
    then have px: "P x" by simp
    from L consider "re_match (Plus1 P # p) (Suc pos) xs" | "re_match p (Suc pos) xs" by auto
    then show ?R
    proof cases
      case 1
      then obtain u v where "xs = u @ v" "u \<noteq> []" "list_all P u" "re_match p (Suc pos + length u) v"
        using Cons.IH by blast
      then have "x # xs = (x # u) @ v \<and> x # u \<noteq> [] \<and> list_all P (x # u) \<and> re_match p (pos + length (x # u)) v"
        using px by simp
      then show ?thesis by blast
    next
      case 2
      then have "x # xs = [x] @ xs \<and> [x] \<noteq> [] \<and> list_all P [x] \<and> re_match p (pos + length [x]) xs"
        using px by simp
      then show ?thesis by blast
    qed
  next
    assume ?R
    then obtain u v where uv: "x # xs = u @ v" "u \<noteq> []" "list_all P u" "re_match p (pos + length u) v"
      by blast
    then obtain u' where u: "u = x # u'" "xs = u' @ v" by (cases u) auto
    show ?L
    proof (cases "u' = []")
      case True
      with uv u show ?thesis by simp
    next
      case False
      with uv u have "re_match (Plus1 P # p) (Suc pos) xs"
        using Cons.IH[of "Suc pos"] by auto
      with uv u show ?thesis by simp
    qed
  qed
qed

lemma re_match_Plus1_Ch:
  "re_match (Plus1 P # Ch c # p) pos s \<longleftrightarrow>
     (\<exists>u r. s = u @ c # r \<and> u \<noteq> [] \<and> list_all P u \<and> re_match p (Suc (pos + length u)) r)"
proof -
  have "re_match (Ch c # p) n v \<longleftrightarrow> (\<exists>r. v = c # r \<and> re_match p (Suc n) r)" for n v
    by (cases v) auto
  then show ?thesis
    unfolding re_match_Plus1 by blast
qed

lemma re_match_Plus1_AtEnd:
  "re_match [Plus1 P, AtEnd] pos s \<longleftrightarrow>
     (\<exists>u. u \<noteq> [] \<and> list_all P u \<and> (s = u \<or> s = u @ [CHR 0x0A]))"
  unfolding re_match_Plus1 by auto

lemma re_match_email_re:
  "re_match email_re 0 s \<longleftrightarrow> (whole_pattern s \<or> (\<exists>s'. s = s' @ [CHR 0x0A] \<and> whole_pattern s'))"
  (is "?L \<longleftrightarrow> ?R")
proof
  assume ?L
  then have "re_match [Plus1 not_at_space, Ch CHR ''@'', Plus1 not_at_space, Ch CHR ''.'',
      Plus1 not_at_space, AtEnd] 0 s"
    by (simp add: email_re_def)
  then have "\<exists>l r. s = l @ CHR ''@'' # r \<and> l \<noteq> [] \<and> list_all not_at_space l \<and>
      re_match [Plus1 not_at_space, Ch CHR ''.'', Plus1 not_at_space, AtEnd] (Suc (0 + length l)) r"
    by (rule iffD1[OF re_match_Plus1_Ch])
  then obtain l r where 1: "s = l @ CHR ''@'' # r" "l \<noteq> []" "list_all not_at_space l"
    and r: "re_match [Plus1 not_at_space, Ch CHR ''.'', Plus1 not_at_space, AtEnd] (Suc (0 + length l)) r"
    by blast
  from r have "\<exists>d r2. r = d @ CHR ''.'' # r2 \<and> d \<noteq> [] \<and> list_all not_at_space d \<and>
      re_match [Plus1 not_at_space, AtEnd] (Suc (Suc (0 + length l) + length d)) r2"
    by (rule iffD1[OF re_match_Plus1_Ch])
  then obtain d r2 where 2: "r = d @ CHR ''.'' # r2" "d \<noteq> []" "list_all not_at_space d"
    and r2: "re_match [Plus1 not_at_space, AtEnd] (Suc (Suc (0 + length l) + length d)) r2"
    by blast
  from r2 have "\<exists>t. t \<noteq> [] \<and> list_all not_at_space t \<and> (r2 = t \<or> r2 = t @ [CHR 0x0A])"
    by (rule iffD1[OF re_match_Plus1_AtEnd])
  then obtain t where 3: "t \<noteq> []" "list_all not_at_space t" "r2 = t \<or> r2 = t @ [CHR 0x0A]"
    by blast
  have wp: "whole_pattern (l @ ''@'' @ d @ ''.'' @ t)"
    unfolding whole_pattern_def using 1(2,3) 2(2,3) 3(1,2) by blast
  from 3(3) show ?R
  proof
    assume "r2 = t"
    with 1 2 have "s = l @ ''@'' @ d @ ''.'' @ t" by simp
    with wp show ?thesis by simp
  next
    assume "r2 = t @ [CHR 0x0A]"
    with 1 2 have "s = (l @ ''@'' @ d @ ''.'' @ t) @ [CHR 0x0A]" by simp
    with wp show ?thesis by blast
  qed
next
  have step: "re_match email_re 0 (l @ ''@'' @ d @ ''.'' @ t @ e)"
    if "l \<noteq> []" "d \<noteq> []" "t \<noteq> []" "list_all not_at_space l" "list_all not_at_space d"
       "list_all not_at_space t" "e = [] \<or> e = [CHR 0x0A]" for l d t e
  proof -
    have "\<exists>u. u \<noteq> [] \<and> list_all not_at_space u \<and> (t @ e = u \<or> t @ e = u @ [CHR 0x0A])"
      by (rule exI[of _ t]) (use that in auto)
    then have a: "re_match [Plus1 not_at_space, AtEnd] n (t @ e)" for n
      by (rule iffD2[OF re_match_Plus1_AtEnd])
    have "\<exists>u r. d @ CHR ''.'' # t @ e = u @ CHR ''.'' # r \<and> u \<noteq> [] \<and> list_all not_at_space u \<and>
        re_match [Plus1 not_at_space, AtEnd] (Suc (n + length u)) r" for n
      by (rule exI[of _ d], rule exI[of _ "t @ e"]) (simp add: that a)
    then have b: "re_match [Plus1 not_at_space, Ch CHR ''.'', Plus1 not_at_space, AtEnd] n
        (d @ CHR ''.'' # t @ e)" for n
      by (rule iffD2[OF re_match_Plus1_Ch])
    have "\<exists>u r. l @ CHR ''@'' # d @ CHR ''.'' # t @ e = u @ CHR ''@'' # r \<and> u \<noteq> [] \<and>
        list_all not_at_space u \<and>
        re_match [Plus1 not_at_space, Ch CHR ''.'', Plus1 not_at_space, AtEnd] (Suc (0 + length u)) r"
      by (rule exI[of _ l], rule exI[of _ "d @ CHR ''.'' # t @ e"]) (simp add: that b)
    then have "re_match [Plus1 not_at_space, Ch CHR ''@'', Plus1 not_at_space, Ch CHR ''.'',
        Plus1 not_at_space, AtEnd] 0 (l @ CHR ''@'' # d @ CHR ''.'' # t @ e)"
      by (rule iffD2[OF re_match_Plus1_Ch])
    then show ?thesis by (simp add: email_re_def)
  qed
  assume ?R
  then show ?L
  proof
    assume "whole_pattern s"
    then obtain l d t where "s = l @ ''@'' @ d @ ''.'' @ t" "l \<noteq> []" "d \<noteq> []" "t \<noteq> []"
      "list_all not_at_space l" "list_all not_at_space d" "list_all not_at_space t"
      unfolding whole_pattern_def by blast
    then show ?thesis using step[of l d t "[]"] by simp
  next
    assume "\<exists>s'. s = s' @ [CHR 0x0A] \<and> whole_pattern s'"
    then obtain l d t where "s = (l @ ''@'' @ d @ ''.'' @ t) @ [CHR 0x0A]" "l \<noteq> []" "d \<noteq> []" "t \<noteq> []"
      "list_all not_at_space l" "list_all not_at_space d" "list_all not_at_space t"
      unfolding whole_pattern_def by blast
    then show ?thesis using step[of l d t "[CHR 0x0A]"] by simp
  qed
qed

lemma strip_last_not_space: "str_strip s \<noteq> [] \<Longrightarrow> \<not> isspace (last (str_strip s))"
  unfolding str_strip_def
  using hd_dropWhile[of isspace "rev (dropWhile isspace s)"]
  by (simp add: last_rev)

lemma set_strip: "set (str_strip s) \<subseteq> set s"
proof
  fix x
  assume "x \<in> set (str_strip s)"
  then have "x \<in> set (dropWhile isspace (rev (dropWhile isspace s)))"
    by (simp add: str_strip_def)
  then have "x \<in> set (rev (dropWhile isspace s))" by (rule set_dropWhileD)
  then have "x \<in> set (dropWhile isspace s)" by simp
  then show "x \<in> set s" by (rule set_dropWhileD)
qed

lemma strip_surrounded:
  assumes "list_all isspace ws1" "list_all isspace ws2"
  shows "str_strip (ws1 @ s @ ws2) = str_strip s"
proof -
  have w2: "dropWhile isspace ws2 = []" "dropWhile isspace (rev ws2 @ ys) = dropWhile isspace ys" for ys
    using assms(2) by (simp_all add: list_all_iff dropWhile_append)
  have a: "dropWhile isspace (ws1 @ s @ ws2) = dropWhile isspace (s @ ws2)"
    using assms(1) by (simp add: dropWhile_append list_all_iff)
  have b: "dropWhile isspace (rev (dropWhile isspace (s @ ws2))) =
           dropWhile isspace (rev (dropWhile isspace s))"
  proof (cases "\<forall>x\<in>set s. isspace x")
    case True
    then have ds: "dropWhile isspace s = []" by simp
    from True show ?thesis by (simp add: dropWhile_append w2 ds)
  next
    case False
    have "dropWhile isspace (s @ ws2) = dropWhile isspace s @ ws2"
      by (subst dropWhile_append) (rule if_not_P[OF False])
    then show ?thesis by (simp add: w2(2))
  qed
  show ?thesis unfolding str_strip_def using a b by simp
qed

lemma whole_pattern_nonempty:
  assumes "whole_pattern s"
  shows "s \<noteq> []"
proof -
  from assms obtain l d t where "s = l @ ''@'' @ d @ ''.'' @ t"
    unfolding whole_pattern_def by blast
  then show ?thesis by simp
qed

lemma is_valid_email_iff: "is_valid_email a \<longleftrightarrow> whole_pattern (str_strip a)"
proof (cases "str_strip a = []")
  case True
  then show ?thesis using whole_pattern_nonempty by (auto simp: is_valid_email_def)
next
  case False
  have "\<not> (\<exists>s'. str_strip a = s' @ [CHR 0x0A])"
    using strip_last_not_space[OF False] isspace_newline by auto
  then show ?thesis using False by (simp add: is_valid_email_def re_match_email_re)
qed

lemma not_at_space_list: "list_all not_at_space l \<Longrightarrow> x \<in> set l \<Longrightarrow> \<not> isspace x"
  by (simp add: list_all_iff not_at_space_def)

lemma whole_pattern_chars:
  assumes "whole_pattern s" and "c \<in> set s"
  shows "\<not> isspace c"
proof -
  from assms(1) obtain l d t where s: "s = l @ ''@'' @ d @ ''.'' @ t"
    and ok: "list_all not_at_space l" "list_all not_at_space d" "list_all not_at_space t"
    unfolding whole_pattern_def by blast
  from s assms(2) have "c = CHR ''@'' \<or> c = CHR ''.'' \<or> c \<in> set l \<or> c \<in> set d \<or> c \<in> set t"
    by simp
  then show ?thesis
    by (elim disjE)
      (simp_all add: not_space_at not_space_dot not_at_space_list[OF ok(1)]
        not_at_space_list[OF ok(2)] not_at_space_list[OF ok(3)])
qed

lemma lower_dot: "lower_char CHR ''.'' = CHR ''.''"
  by (simp add: lower_char_def)

lemma lower_char_dot: "lower_char c = CHR ''.'' \<longleftrightarrow> c = CHR ''.''"
proof
  assume a: "lower_char c = CHR ''.''"
  define n where "n = (of_char c :: nat)"
  show "c = CHR ''.''"
  proof (rule ccontr)
    assume nc: "c \<noteq> CHR ''.''"
    have r: "n \<le> 222" and r2: "65 \<le> n" and e: "char_of (n + 32) = CHR ''.''"
      using a nc unfolding lower_char_def Let_def n_def by (simp_all split: if_splits) linarith+
    have "(of_char (char_of (n + 32) :: char) :: nat) = of_char CHR ''.''"
      using e by simp
    then have "(n + 32) mod 256 = 46" by simp
    moreover have "(n + 32) mod 256 = n + 32" using r by simp
    ultimately show False using r2 by linarith
  qed
next
  assume "c = CHR ''.''"
  then show "lower_char c = CHR ''.''" by (simp add: lower_dot)
qed

lemma lower_dot_set: "CHR ''.'' \<in> set (str_lower p) \<longleftrightarrow> CHR ''.'' \<in> set p"
proof -
  have "CHR ''.'' \<in> lower_char ` set p \<longleftrightarrow> CHR ''.'' \<in> set p"
    using lower_char_dot by (metis image_iff)
  then show ?thesis by (simp add: str_lower_def)
qed

lemma takeWhile_stop: "c \<notin> set xs \<Longrightarrow> takeWhile (\<lambda>x. x \<noteq> c) (xs @ c # ys) = xs"
  by (induction xs) auto

lemma dropWhile_stop: "c \<notin> set xs \<Longrightarrow> dropWhile (\<lambda>x. x \<noteq> c) (xs @ c # ys) = c # ys"
  by (induction xs) auto

lemma split1_at:
  "CHR ''@'' \<notin> set l \<Longrightarrow> split1 CHR ''@'' (l @ CHR ''@'' # r) = [l, r]"
  by (simp add: split1_def takeWhile_stop dropWhile_stop)

lemma whole_pattern_domain:
  assumes "whole_pattern (str_strip a)"
  shows "\<exists>d. get_domain a = Inr d \<and> CHR ''.'' \<in> set d"
proof -
  from assms obtain l d t where s: "str_strip a = l @ ''@'' @ d @ ''.'' @ t" and l: "list_all not_at_space l"
    unfolding whole_pattern_def by blast
  from l have "CHR ''@'' \<notin> set l" unfolding list_all_iff not_at_space_def by blast
  then have "split1 CHR ''@'' (str_strip a) = [l, d @ ''.'' @ t]"
    using s split1_at by simp
  then show ?thesis
    by (simp add: get_domain_def py_index_def str_lower_def lower_dot)
qed

lemma rsplit1_last_dot:
  "CHR ''.'' \<notin> set suf \<Longrightarrow> last (rsplit1 CHR ''.'' (pre @ ''.'' @ suf)) = suf"
  using takeWhile_stop[of "CHR ''.''" "rev suf" "rev pre"]
  by (simp add: rsplit1_def)

lemma rsplit1_no_dot: "CHR ''.'' \<notin> set s \<Longrightarrow> rsplit1 CHR ''.'' s = [s]"
  by (simp add: rsplit1_def)

lemma rsplit1_nonempty: "rsplit1 sep s \<noteq> []"
  by (simp add: rsplit1_def)

text \<open>
  C6. \<open>_is_valid_email\<close> trims surrounding whitespace, is false when the trimmed string
  is empty, and is true exactly when the trimmed string as a whole has the form
  \<open>[^@\s]+@[^@\s]+\.[^@\s]+\<close>. In particular it is false for an address without
  \<open>@\<close>, with whitespace inside the trimmed string, or whose domain part has no dot.
\<close>

theorem is_valid_email_pattern:
  "(str_strip a = [] \<longrightarrow> \<not> is_valid_email a) \<and>
   (is_valid_email a \<longleftrightarrow> whole_pattern (str_strip a)) \<and>
   (list_all isspace ws1 \<and> list_all isspace ws2 \<longrightarrow>
      is_valid_email (ws1 @ a @ ws2) = is_valid_email a) \<and>
   (CHR ''@'' \<notin> set a \<longrightarrow> \<not> is_valid_email a) \<and>
   ((\<exists>c \<in> set (str_strip a). isspace c) \<longrightarrow> \<not> is_valid_email a) \<and>
   (\<forall>d. get_domain a = Inr d \<and> CHR ''.'' \<notin> set d \<longrightarrow> \<not> is_valid_email a)"
proof -
  have c1: "str_strip a = [] \<longrightarrow> \<not> is_valid_email a"
    using whole_pattern_nonempty is_valid_email_iff by blast
  have c2: "is_valid_email a \<longleftrightarrow> whole_pattern (str_strip a)"
    by (rule is_valid_email_iff)
  have c3: "list_all isspace ws1 \<and> list_all isspace ws2 \<longrightarrow>
      is_valid_email (ws1 @ a @ ws2) = is_valid_email a"
    by (simp add: is_valid_email_iff strip_surrounded)
  have c4: "CHR ''@'' \<notin> set a \<longrightarrow> \<not> is_valid_email a"
  proof (intro impI notI)
    assume no: "CHR ''@'' \<notin> set a" and "is_valid_email a"
    then obtain l d t where "str_strip a = l @ ''@'' @ d @ ''.'' @ t"
      unfolding is_valid_email_iff whole_pattern_def by blast
    then have "CHR ''@'' \<in> set (str_strip a)" by simp
    with no set_strip show False by blast
  qed
  have c5: "(\<exists>c \<in> set (str_strip a). isspace c) \<longrightarrow> \<not> is_valid_email a"
    unfolding is_valid_email_iff using whole_pattern_chars by blast
  have c6: "\<forall>d. get_domain a = Inr d \<and> CHR ''.'' \<notin> set d \<longrightarrow> \<not> is_valid_email a"
  proof (intro allI impI notI)
    fix d
    assume d: "get_domain a = Inr d \<and> CHR ''.'' \<notin> set d" and "is_valid_email a"
    then obtain d' where "get_domain a = Inr d'" "CHR ''.'' \<in> set d'"
      using whole_pattern_domain[of a] is_valid_email_iff by blast
    with d show False by simp
  qed
  from c1 c2 c3 c4 c5 c6 show ?thesis by blast
qed

theorem is_valid_email_pattern_witness:
  "str_strip '' a@b.c '' = ''a@b.c'' \<and> is_valid_email '' a@b.c '' \<and> whole_pattern ''a@b.c'' \<and>
   \<not> is_valid_email ''ab.c'' \<and> \<not> is_valid_email ''a b@c.d'' \<and> \<not> is_valid_email ''a@bc''"
proof -
  have s: "str_strip '' a@b.c '' = ''a@b.c''" by code_simp
  have v: "is_valid_email '' a@b.c ''" by code_simp
  have w: "whole_pattern ''a@b.c''"
    using is_valid_email_pattern[of "'' a@b.c ''", THEN conjunct2, THEN conjunct1] v s by simp
  have "CHR ''@'' \<notin> set ''ab.c''" by simp
  then have n1: "\<not> is_valid_email ''ab.c''"
    using is_valid_email_pattern[of "''ab.c''"] by blast
  have "str_strip ''a b@c.d'' = ''a b@c.d''" "isspace CHR '' ''" by code_simp+
  then have "\<exists>c \<in> set (str_strip ''a b@c.d''). isspace c" by simp
  then have n2: "\<not> is_valid_email ''a b@c.d''"
    using is_valid_email_pattern[of "''a b@c.d''"] by blast
  have "get_domain ''a@bc'' = Inr ''bc''" by code_simp
  then have "get_domain ''a@bc'' = Inr ''bc'' \<and> CHR ''.'' \<notin> set ''bc''" by simp
  then have n3: "\<not> is_valid_email ''a@bc''"
    using is_valid_email_pattern[of "''a@bc''"] by blast
  show ?thesis using s v w n1 n2 n3 by simp
qed

text \<open>
  C9. The extension check looks at the text after the last dot of the lower-cased path,
  or at the whole lower-cased path when it has no dot; so a dot-free path that is
  \<open>csv\<close> or \<open>txt\<close> up to case, such as a file named \<open>txt\<close>, is accepted.
\<close>

theorem is_valid_extension_last_dot:
  "(\<forall>pre suf. str_lower path = pre @ ''.'' @ suf \<and> CHR ''.'' \<notin> set suf \<longrightarrow>
      (is_valid_extension path \<longleftrightarrow> suf = ''csv'' \<or> suf = ''txt'')) \<and>
   (CHR ''.'' \<notin> set path \<longrightarrow>
      (is_valid_extension path \<longleftrightarrow> str_lower path = ''csv'' \<or> str_lower path = ''txt'')) \<and>
   is_valid_extension ''txt''"
proof (intro conjI impI allI)
  fix pre suf
  assume "str_lower path = pre @ ''.'' @ suf \<and> CHR ''.'' \<notin> set suf"
  then show "is_valid_extension path \<longleftrightarrow> suf = ''csv'' \<or> suf = ''txt''"
    using rsplit1_last_dot[of suf pre]
    by (simp add: is_valid_extension_def VALID_EXTENSIONS_def Let_def)
next
  assume "CHR ''.'' \<notin> set path"
  then have "CHR ''.'' \<notin> set (str_lower path)" by (simp add: lower_dot_set)
  then show "is_valid_extension path \<longleftrightarrow> str_lower path = ''csv'' \<or> str_lower path = ''txt''"
    by (simp add: is_valid_extension_def VALID_EXTENSIONS_def rsplit1_no_dot Let_def)
next
  show "is_valid_extension ''txt''" by code_simp
qed

theorem is_valid_extension_last_dot_witness:
  "str_lower ''dir/Data.CSV'' = ''dir/data'' @ ''.'' @ ''csv'' \<and> is_valid_extension ''dir/Data.CSV'' \<and>
   str_lower ''TXT'' = ''txt'' \<and> is_valid_extension ''TXT''"
proof -
  have l1: "str_lower ''dir/Data.CSV'' = ''dir/data'' @ ''.'' @ ''csv''" by code_simp
  have l2: "str_lower ''TXT'' = ''txt''" by code_simp
  have a: "is_valid_extension ''dir/Data.CSV''"
    using is_valid_extension_last_dot[of "''dir/Data.CSV''", THEN conjunct1, rule_format,
        of "''dir/data''" "''csv''"] l1 by simp
  have b: "is_valid_extension ''TXT''"
    using is_valid_extension_last_dot[of "''TXT''", THEN conjunct2, THEN conjunct1] l2 by simp
  show ?thesis using l1 l2 a b by simp
qed

end
